theory Spec2Isabelle
  imports Main "HOL-Library.Word" "HOL-Library.Code_Target_Nat"
begin

unbundle bit_operations_syntax

section \<open>Machine integers and undefined shifts\<close>

text \<open>
  The source computes with \<^verbatim>\<open>uint32_t\<close> and with the \<^verbatim>\<open>int\<close>
  literal \<^verbatim>\<open>1\<close>; both are 32 bits wide on the platforms the library builds for.
  Every \<^verbatim>\<open>int\<close> produced by a shift is at once converted to
  \<^verbatim>\<open>uint32_t\<close> (by the multiplication with an unsigned operand, by the
  comparison with an unsigned operand, or by the assignment to an unsigned field), so
  all values are 32-bit words and arithmetic wraps around.

  A shift whose count is not below the width of the promoted left operand has no
  defined result in C++. The model makes that outcome a value of its own. The shift
  \<^verbatim>\<open>1 << 31\<close> is defined under the language standard the library requires
  (C++17) and reads as \<open>2 ^ 31\<close> once converted to \<^verbatim>\<open>uint32_t\<close>.
\<close>

type_synonym u32 = "32 word"

datatype fault = Undefined_Shift

text \<open>\<^verbatim>\<open>1 << k\<close> with an \<^verbatim>\<open>int\<close> left operand and a
  \<^verbatim>\<open>uint32_t\<close> count, read as \<^verbatim>\<open>uint32_t\<close>.\<close>

definition shl_one :: "u32 \<Rightarrow> fault + u32" where
  "shl_one k = (if k < 32 then Inr (push_bit (unat k) 1) else Inl Undefined_Shift)"

text \<open>\<^verbatim>\<open>x >> k\<close> on \<^verbatim>\<open>uint32_t\<close>.\<close>

definition shr :: "u32 \<Rightarrow> u32 \<Rightarrow> fault + u32" where
  "shr x k = (if k < 32 then Inr (drop_bit (unat k) x) else Inl Undefined_Shift)"

section \<open>Truth tables\<close>

text \<open>
  Modelled from the spec: the truth-table library (\<^verbatim>\<open>kitty::dynamic_truth_table\<close>,
  \<^verbatim>\<open>create_nth_var\<close>, \<^verbatim>\<open>operator~\<close>, \<^verbatim>\<open>is_const0\<close>) is not
  part of the source file. A table over \<open>n\<close> variables holds one bit for each of the
  \<open>2 ^ n\<close> input assignments; position \<open>p\<close> is the assignment whose variable
  \<open>i\<close> has the value of bit \<open>i\<close> of \<open>p\<close>.
\<close>

record dynamic_truth_table =
  num_vars :: nat
  bits :: "bool list"

text \<open>Modelled from the spec: the constructor yields the all-zero table of the given width.\<close>

definition new_truth_table :: "nat \<Rightarrow> dynamic_truth_table" where
  "new_truth_table n = \<lparr>num_vars = n, bits = replicate (2 ^ n) False\<rparr>"

text \<open>Modelled from the spec: the single-variable indicator table, true exactly at the
  positions whose bit \<open>var_index\<close> is 1.\<close>

definition create_nth_var :: "dynamic_truth_table \<Rightarrow> nat \<Rightarrow> dynamic_truth_table" where
  "create_nth_var tt var_index =
     tt\<lparr>bits := map (\<lambda>p. bit p var_index) [0..<2 ^ num_vars tt]\<rparr>"

text \<open>Modelled from the spec: bitwise complement.\<close>

definition unary_not :: "dynamic_truth_table \<Rightarrow> dynamic_truth_table" where
  "unary_not tt = tt\<lparr>bits := map Not (bits tt)\<rparr>"

text \<open>Modelled from the spec: the all-zero test.\<close>

definition is_const0 :: "dynamic_truth_table \<Rightarrow> bool" where
  "is_const0 tt = (bits tt = replicate (length (bits tt)) False)"

definition get_bit :: "dynamic_truth_table \<Rightarrow> nat \<Rightarrow> bool" where
  "get_bit tt p = (bits tt ! p)"

section \<open>Statistics and the round simulator\<close>

record simulation_cec_stats =
  split_var :: u32
  rounds :: u32

record tt_simulator =
  sim_split_var :: u32
  sim_round :: u32

definition compute_constant :: "tt_simulator \<Rightarrow> bool \<Rightarrow> dynamic_truth_table" where
  "compute_constant s v =
     (let tt = new_truth_table (unat (sim_split_var s))
      in if v then unary_not tt else tt)"

definition compute_pi :: "tt_simulator \<Rightarrow> u32 \<Rightarrow> fault + dynamic_truth_table" where
  "compute_pi s index =
     (let tt = new_truth_table (unat (sim_split_var s))
      in if index < sim_split_var s then Inr (create_nth_var tt (unat index))
         else (case shr (sim_round s) (index - sim_split_var s) of
                 Inl e \<Rightarrow> Inl e
               | Inr w \<Rightarrow>
                   (let val = (w AND 1 \<noteq> 0)
                    in if val = False then Inr (unary_not tt) else Inr tt)))"

definition compute_not :: "tt_simulator \<Rightarrow> dynamic_truth_table \<Rightarrow> dynamic_truth_table" where
  "compute_not s v = unary_not v"

section \<open>The split-variable calculator\<close>

text \<open>The \<^verbatim>\<open>while\<close> loop of \<^verbatim>\<open>calculate_split_var\<close>; the result is the
  final value of \<^verbatim>\<open>m\<close>. The conjunction short-circuits: the shift is evaluated only
  when \<^verbatim>\<open>m <= num_pis\<close>.\<close>

function split_var_loop :: "u32 \<Rightarrow> u32 \<Rightarrow> u32 \<Rightarrow> fault + u32" where
  "split_var_loop n_pis n_nodes m =
     (if m \<le> n_pis then
        (case shl_one (m - 3) of
           Inl e \<Rightarrow> Inl e
         | Inr s \<Rightarrow>
             if 32 + s * n_nodes \<le> push_bit 29 1
             then split_var_loop n_pis n_nodes (m + 1)
             else Inr m)
      else Inr m)"
  by pat_completeness auto
termination
proof (relation "measure (\<lambda>(n_pis, n_nodes, m). 40 - unat m)")
  show "wf (measure (\<lambda>(n_pis :: u32, n_nodes :: u32, m :: u32). 40 - unat m))"
    by simp
next
  fix n_pis n_nodes m :: u32 and s :: u32
  assume "shl_one (m - 3) = Inr s"
  then have k: "m - 3 < 32"
    by (simp add: shl_one_def split: if_splits)
  have "unat m < 35"
  proof -
    have "unat (a + 3) \<le> unat a + 3" for a :: u32
      by (simp add: unat_word_ariths)
    from this [of "m - 3"] have "unat m \<le> unat (m - 3) + 3" by simp
    moreover have "unat (m - 3) < 32"
      using k by (simp add: word_less_nat_alt)
    ultimately show ?thesis by simp
  qed
  moreover from this have "unat (m + 1) = unat m + 1"
    by (simp add: unat_word_ariths)
  ultimately show "((n_pis, n_nodes, m + 1), (n_pis, n_nodes, m))
      \<in> measure (\<lambda>(n_pis, n_nodes, m). 40 - unat m)"
    by simp
qed

declare split_var_loop.simps [simp del]

definition calculate_split_var :: "u32 \<Rightarrow> u32 \<Rightarrow> fault + u32" where
  "calculate_split_var n_pis n_nodes =
     (if n_pis \<le> 6 then Inr n_pis
      else (case split_var_loop n_pis n_nodes 7 of
              Inl e \<Rightarrow> Inl e
            | Inr m \<Rightarrow> Inr (m - 1)))"

section \<open>The collaborators\<close>

text \<open>
  The network type, the miter construction and the generic simulation engine are template
  parameters and library functions outside the source file. They are taken as
  parameters: every theorem below holds for every network type and for every choice of
  these four functions. \<open>simulate\<close> receives the simulator object (its two fields
  determine its three operations) and returns the truth tables of the primary outputs,
  in output order. As their contracts say, the collaborators return, and they depend on
  their arguments only.
\<close>

record 'ntk network_api =
  num_pis :: "'ntk \<Rightarrow> u32"
  size_ntk :: "'ntk \<Rightarrow> u32"
  miter :: "'ntk \<Rightarrow> 'ntk \<Rightarrow> 'ntk option"
  simulate :: "'ntk \<Rightarrow> tt_simulator \<Rightarrow> dynamic_truth_table list"

section \<open>The driver\<close>

text \<open>
  The driver's observable steps: a call of the simulation engine for a round, and a zero
  test of one output table of a round (round index, position in the output vector).
\<close>

datatype event = Simulated u32 | Checked u32 nat

text \<open>The inner \<^verbatim>\<open>for\<close> loop over the output tables of one round. The boolean
  is \<open>False\<close> when the loop left the function with \<^verbatim>\<open>return false\<close>.\<close>

fun scan_outputs :: "u32 \<Rightarrow> nat \<Rightarrow> dynamic_truth_table list \<Rightarrow> bool \<times> event list" where
  "scan_outputs r i [] = (True, [])"
| "scan_outputs r i (it # rest) =
     (if is_const0 it = False then (False, [Checked r i])
      else (case scan_outputs r (Suc i) rest of
              (b, evs) \<Rightarrow> (b, Checked r i # evs)))"

text \<open>The outer \<^verbatim>\<open>for\<close> loop over the rounds, from the counter value \<open>r\<close> on.\<close>

function rounds_loop ::
  "(tt_simulator \<Rightarrow> dynamic_truth_table list) \<Rightarrow> simulation_cec_stats \<Rightarrow> u32
     \<Rightarrow> bool \<times> event list" where
  "rounds_loop sim st r =
     (if r < rounds st then
        (case scan_outputs r 0 (sim \<lparr>sim_split_var = split_var st, sim_round = r\<rparr>) of
           (b, evs) \<Rightarrow>
             if b = False then (False, Simulated r # evs)
             else (case rounds_loop sim st (r + 1) of
                     (b', evs') \<Rightarrow> (b', Simulated r # evs @ evs')))
      else (True, []))"
  by pat_completeness auto
termination
proof (relation "measure (\<lambda>(sim, st, r). unat (rounds st) - unat r)")
  show "wf (measure (\<lambda>(sim :: tt_simulator \<Rightarrow> dynamic_truth_table list,
      st :: simulation_cec_stats, r :: u32). unat (rounds st) - unat r))"
    by simp
next
  fix sim :: "tt_simulator \<Rightarrow> dynamic_truth_table list"
    and st :: simulation_cec_stats and r :: u32
  assume "r < rounds st"
  then have lt: "unat r < unat (rounds st)"
    by (simp add: word_less_nat_alt)
  moreover have "unat (rounds st) < 2 ^ 32"
    using unsigned_less [of "rounds st"] by simp
  ultimately have "unat (r + 1) = unat r + 1"
    by (simp add: unat_word_ariths)
  with lt show "((sim, st, r + 1), (sim, st, r))
      \<in> measure (\<lambda>(sim, st, r). unat (rounds st) - unat r)"
    by simp
qed

declare rounds_loop.simps [simp del]

text \<open>\<^verbatim>\<open>simulation_cec_impl::run\<close>: the verdict, the stats record as left behind, and
  the steps taken.\<close>

definition run ::
  "'ntk network_api \<Rightarrow> 'ntk \<Rightarrow> simulation_cec_stats
     \<Rightarrow> fault + (bool \<times> simulation_cec_stats \<times> event list)" where
  "run N ntk st =
     (let n_pis = num_pis N ntk; n_nodes = size_ntk N ntk
      in case calculate_split_var n_pis n_nodes of
           Inl e \<Rightarrow> Inl e
         | Inr sv \<Rightarrow>
             (let st1 = st\<lparr>split_var := sv\<rparr>
              in case shl_one (n_pis - split_var st1) of
                   Inl e \<Rightarrow> Inl e
                 | Inr n \<Rightarrow>
                     (let st2 = st1\<lparr>rounds := n\<rparr>
                      in case rounds_loop (simulate N ntk) st2 0 of
                           (b, evs) \<Rightarrow> Inr (b, st2, evs))))"

section \<open>The entry point\<close>

text \<open>
  \<^verbatim>\<open>simulation_cec\<close>. The argument \<open>pst\<close> is the caller's stats location:
  \<open>None\<close> for a null pointer, \<open>Some s\<close> for a location that holds \<open>s\<close> before the
  call. The result is the returned \<^verbatim>\<open>std::optional<bool>\<close>, the content of the
  location after the call, and the driver's steps.
\<close>

definition simulation_cec ::
  "'ntk network_api \<Rightarrow> 'ntk \<Rightarrow> 'ntk \<Rightarrow> simulation_cec_stats option
     \<Rightarrow> fault + (bool option \<times> simulation_cec_stats option \<times> event list)" where
  "simulation_cec N ntk1 ntk2 pst =
     (let st = \<lparr>split_var = 0, rounds = 0\<rparr>; result = False
      in if 40 < num_pis N ntk1 then Inr (None, pst, [])
         else (case (case miter N ntk1 ntk2 of
                       None \<Rightarrow> Inr (result, st, [])
                     | Some ntk_miter \<Rightarrow> run N ntk_miter st) of
                 Inl e \<Rightarrow> Inl e
               | Inr (result', st', evs) \<Rightarrow>
                   Inr (Some result',
                        (case pst of None \<Rightarrow> None | Some old \<Rightarrow> Some st'),
                        evs)))"

section \<open>Specification-side notions\<close>

text \<open>The tables the specification names: the constant tables and the canonical
  single-variable indicator table, whose entry at position \<open>p\<close> is 1 exactly when bit
  \<open>i\<close> of \<open>p\<close> is 1 (blocks of \<open>2 ^ i\<close> zeros and \<open>2 ^ i\<close> ones, period
  \<open>2 ^ (i + 1)\<close>).\<close>

definition const_table :: "nat \<Rightarrow> bool \<Rightarrow> dynamic_truth_table" where
  "const_table n b = \<lparr>num_vars = n, bits = replicate (2 ^ n) b\<rparr>"

definition indicator_table :: "nat \<Rightarrow> nat \<Rightarrow> dynamic_truth_table" where
  "indicator_table n i =
     \<lparr>num_vars = n, bits = map (\<lambda>p. p div 2 ^ i mod 2 = 1) [0..<2 ^ n]\<rparr>"

text \<open>The split width as the specification words it, in exact integer arithmetic: the
  input count itself up to 6 inputs, otherwise the largest \<open>m\<close> from 7 to the input count
  that satisfies the memory bound, and 6 when there is none.\<close>

definition bound_holds :: "nat \<Rightarrow> nat \<Rightarrow> bool" where
  "bound_holds m n_nodes = (32 + 2 ^ (m - 3) * n_nodes \<le> 2 ^ 29)"

definition split_var_spec :: "nat \<Rightarrow> nat \<Rightarrow> nat" where
  "split_var_spec n_pis n_nodes =
     (if n_pis \<le> 6 then n_pis
      else Max (insert 6 {m \<in> {7..n_pis}. bound_holds m n_nodes}))"

text \<open>The steps of a round that is simulated and whose outputs are all tested.\<close>

definition round_steps ::
  "(tt_simulator \<Rightarrow> dynamic_truth_table list) \<Rightarrow> u32 \<Rightarrow> u32 \<Rightarrow> event list" where
  "round_steps sim sv r =
     Simulated r # map (Checked r) [0..<length (sim \<lparr>sim_split_var = sv, sim_round = r\<rparr>)]"

text \<open>The value that primary input \<open>index\<close> takes at position \<open>p\<close> of round \<open>r\<close>, read
  off the table \<open>compute_pi\<close> returns, and the input assignment that a round and a
  position stand for.\<close>

definition input_value :: "tt_simulator \<Rightarrow> nat \<Rightarrow> u32 \<Rightarrow> fault + bool" where
  "input_value s p index =
     (case compute_pi s index of Inl e \<Rightarrow> Inl e | Inr tt \<Rightarrow> Inr (get_bit tt p))"

definition assignment :: "u32 \<Rightarrow> u32 \<Rightarrow> u32 \<Rightarrow> nat \<Rightarrow> (fault + bool) list" where
  "assignment n_pis sv r p =
     map (\<lambda>i. input_value \<lparr>sim_split_var = sv, sim_round = r\<rparr> p (of_nat i))
       [0..<unat n_pis]"

section \<open>A small instance of the collaborators\<close>

text \<open>
  Networks without gates whose primary outputs are constants: an input count, a node
  count and the list of output values. The miter of two such networks exists when the
  input counts and the output counts agree; its outputs are the pairwise exclusive-or.
  Simulation returns the constant table of each output. The instance serves concrete
  evaluations of the entry point.
\<close>

record toy_network =
  toy_pis :: u32
  toy_nodes :: u32
  toy_pos :: "bool list"

definition toy_miter :: "toy_network \<Rightarrow> toy_network \<Rightarrow> toy_network option" where
  "toy_miter a b =
     (if toy_pis a = toy_pis b \<and> length (toy_pos a) = length (toy_pos b)
      then Some \<lparr>toy_pis = toy_pis a, toy_nodes = toy_nodes a + toy_nodes b,
                 toy_pos = map2 (\<noteq>) (toy_pos a) (toy_pos b)\<rparr>
      else None)"

definition toy_simulate :: "toy_network \<Rightarrow> tt_simulator \<Rightarrow> dynamic_truth_table list" where
  "toy_simulate a s = map (compute_constant s) (toy_pos a)"

definition toy_api :: "toy_network network_api" where
  "toy_api =
     \<lparr>num_pis = toy_pis, size_ntk = toy_nodes, miter = toy_miter, simulate = toy_simulate\<rparr>"

section \<open>Facts about the shifts\<close>

lemma shl_one_Inr: "shl_one k = Inr s \<Longrightarrow> unat k < 32 \<and> unat s = 2 ^ unat k"
proof -
  assume a: "shl_one k = Inr s"
  then have k: "k < 32" and s: "s = push_bit (unat k) 1"
    by (auto simp: shl_one_def split: if_splits)
  from k have k': "unat k < 32" by (simp add: word_less_nat_alt)
  have "unat (push_bit (unat k) (1 :: u32)) =
      take_bit LENGTH(32) (push_bit (unat k) (unat (1 :: u32)))"
    by (rule unsigned_push_bit_eq)
  also have "\<dots> = take_bit 32 (2 ^ unat k :: nat)"
    by simp
  also have "\<dots> = 2 ^ unat k"
    using k' by (simp add: take_bit_nat_eq_self)
  finally have "unat (push_bit (unat k) (1 :: u32)) = 2 ^ unat k" .
  with k' s show ?thesis by simp
qed

lemma shift_count_bound:
  assumes "shl_one (m - 3) = Inr s"
  shows "unat m < 35"
proof -
  have "unat (a + 3) \<le> unat a + 3" for a :: u32
    by (simp add: unat_word_ariths)
  from this [of "m - 3"] have "unat m \<le> unat (m - 3) + 3" by simp
  moreover have "unat (m - 3) < 32"
    using shl_one_Inr [OF assms] by simp
  ultimately show ?thesis by simp
qed

section \<open>The round simulator\<close>

lemma unary_not_new: "unary_not (new_truth_table n) = const_table n True"
  by (simp add: unary_not_def new_truth_table_def const_table_def)

lemma new_is_const: "new_truth_table n = const_table n False"
  by (simp add: new_truth_table_def const_table_def)

lemma nth_var_indicator: "create_nth_var (new_truth_table n) i = indicator_table n i"
  by (simp add: create_nth_var_def new_truth_table_def indicator_table_def bit_iff_odd
      odd_iff_mod_2_eq_one)

lemma compute_constant_table:
  "compute_constant s v = const_table (unat (sim_split_var s)) v"
  by (cases v)
    (simp_all add: compute_constant_def Let_def unary_not_def new_truth_table_def
      const_table_def)

lemma const_table_2: "const_table 2 b = \<lparr>num_vars = 2, bits = [b, b, b, b]\<rparr>"
  by (simp add: const_table_def numeral_eq_Suc)

lemma upt_0_4: "[0..<4] = [0, 1, 2, 3]"
  by (simp add: upt_rec)

lemma indicator_table_2_1:
  "indicator_table 2 (Suc 0) = \<lparr>num_vars = 2, bits = [False, False, True, True]\<rparr>"
proof -
  have "(2 :: nat) ^ 2 = 4" by simp
  then show ?thesis
    by (simp add: indicator_table_def upt_0_4)
qed

lemma is_const0_const_table: "is_const0 (const_table n b) = (\<not> b)"
proof -
  have "replicate (2 ^ n) b = replicate (2 ^ n) False \<longleftrightarrow> \<not> b"
    by (cases b) simp_all
  then show ?thesis by (simp add: is_const0_def const_table_def)
qed

lemma get_bit_const_table: "p < 2 ^ n \<Longrightarrow> get_bit (const_table n b) p = b"
  by (simp add: get_bit_def const_table_def)

lemma get_bit_indicator_table: "p < 2 ^ n \<Longrightarrow> get_bit (indicator_table n i) p = bit p i"
  by (simp add: get_bit_def indicator_table_def bit_iff_odd odd_iff_mod_2_eq_one)

lemma compute_pi_split:
  "index < sim_split_var s \<Longrightarrow>
   compute_pi s index = Inr (indicator_table (unat (sim_split_var s)) (unat index))"
  by (simp add: compute_pi_def nth_var_indicator)

lemma compute_pi_round:
  assumes "\<not> index < sim_split_var s" and "index - sim_split_var s < 32"
  shows "compute_pi s index =
    Inr (const_table (unat (sim_split_var s))
          (\<not> bit (sim_round s) (unat (index - sim_split_var s))))"
proof (cases "bit (sim_round s) (unat (index - sim_split_var s))")
  case True
  with assms show ?thesis
    by (simp add: compute_pi_def shr_def new_is_const and_one_eq bit_iff_odd_drop_bit
        mod_2_eq_odd)
next
  case False
  with assms show ?thesis
    by (simp add: compute_pi_def shr_def unary_not_new and_one_eq bit_iff_odd_drop_bit
        mod_2_eq_odd)
qed

text \<open>
  Where the shift is defined, \<open>compute_pi\<close> returns the tables the specification names.
  When the index is below the split width, it returns the canonical indicator table of
  that variable, of width \<open>split_var\<close>. When the index is not below the split width and
  the shift count \<open>index - split_var\<close> is below 32, then with \<open>b\<close> the bit
  \<open>index - split_var\<close> of the round index it returns the all-1 table of width
  \<open>split_var\<close> when \<open>b = 0\<close> and the all-0 table when \<open>b = 1\<close>.
\<close>

lemma compute_pi_tables:
  "(index < sim_split_var s \<longrightarrow>
      compute_pi s index = Inr (indicator_table (unat (sim_split_var s)) (unat index))) \<and>
   (\<not> index < sim_split_var s \<and> index - sim_split_var s < 32 \<longrightarrow>
      (\<not> bit (sim_round s) (unat (index - sim_split_var s)) \<longrightarrow>
         compute_pi s index = Inr (const_table (unat (sim_split_var s)) True)) \<and>
      (bit (sim_round s) (unat (index - sim_split_var s)) \<longrightarrow>
         compute_pi s index = Inr (const_table (unat (sim_split_var s)) False)))"
proof (intro conjI impI)
  assume "index < sim_split_var s"
  then show "compute_pi s index = Inr (indicator_table (unat (sim_split_var s)) (unat index))"
    by (rule compute_pi_split)
next
  assume a: "\<not> index < sim_split_var s \<and> index - sim_split_var s < 32"
    and b: "\<not> bit (sim_round s) (unat (index - sim_split_var s))"
  from a have "compute_pi s index =
      Inr (const_table (unat (sim_split_var s))
            (\<not> bit (sim_round s) (unat (index - sim_split_var s))))"
    by (intro compute_pi_round) simp_all
  with b show "compute_pi s index = Inr (const_table (unat (sim_split_var s)) True)"
    by simp
next
  assume a: "\<not> index < sim_split_var s \<and> index - sim_split_var s < 32"
    and b: "bit (sim_round s) (unat (index - sim_split_var s))"
  from a have "compute_pi s index =
      Inr (const_table (unat (sim_split_var s))
            (\<not> bit (sim_round s) (unat (index - sim_split_var s))))"
    by (intro compute_pi_round) simp_all
  with b show "compute_pi s index = Inr (const_table (unat (sim_split_var s)) False)"
    by simp
qed

text \<open>Split width 2, round 1: input 1 is a table variable; input 2 reads bit 0 of the
  round index, which is 1; input 3 reads bit 1, which is 0.\<close>

lemma compute_pi_tables_example:
  "(1 :: u32) < 2 \<and>
   compute_pi \<lparr>sim_split_var = 2, sim_round = 1\<rparr> 1 =
     Inr \<lparr>num_vars = 2, bits = [False, False, True, True]\<rparr> \<and>
   \<not> (2 :: u32) < 2 \<and> (2 :: u32) - 2 < 32 \<and> bit (1 :: u32) (unat ((2 :: u32) - 2)) \<and>
   compute_pi \<lparr>sim_split_var = 2, sim_round = 1\<rparr> 2 =
     Inr \<lparr>num_vars = 2, bits = [False, False, False, False]\<rparr> \<and>
   \<not> (3 :: u32) < 2 \<and> (3 :: u32) - 2 < 32 \<and> \<not> bit (1 :: u32) (unat ((3 :: u32) - 2)) \<and>
   compute_pi \<lparr>sim_split_var = 2, sim_round = 1\<rparr> 3 =
     Inr \<lparr>num_vars = 2, bits = [True, True, True, True]\<rparr>"
  using compute_pi_tables [of 1 "\<lparr>sim_split_var = 2, sim_round = 1\<rparr>"]
    compute_pi_tables [of 2 "\<lparr>sim_split_var = 2, sim_round = 1\<rparr>"]
    compute_pi_tables [of 3 "\<lparr>sim_split_var = 2, sim_round = 1\<rparr>"]
  by (simp add: indicator_table_2_1 const_table_2)

text \<open>
  Claim C4 says that for every split width, round index and input index \<open>compute_pi\<close>
  returns the indicator table below the split width and otherwise, with \<open>b\<close> the bit
  \<open>index - split_var\<close> of the round index, the all-1 table when \<open>b = 0\<close> and the
  all-0 table when \<open>b = 1\<close>. It fails on the code for the inputs of a 40-input network
  that lie 32 or more places above the split width. With 40 primary inputs and 33554431
  nodes the calculator returns split width 6; for input 38 the shift count of
  \<^verbatim>\<open>_round >> (index - _split_var)\<close> is 32, the shift of the 32-bit round index
  has no defined result, and in round 1 the all-1 table that the claim names (bit 32 of
  the round index 1 is 0) is not what is returned.
\<close>

theorem compute_pi_undefined_shift:
  "calculate_split_var 40 33554431 = Inr 6 \<and>
   compute_pi \<lparr>sim_split_var = 6, sim_round = 1\<rparr> 38 = Inl Undefined_Shift \<and>
   compute_pi \<lparr>sim_split_var = 6, sim_round = 1\<rparr> 38 \<noteq> Inr (const_table 6 True)"
  by (simp add: calculate_split_var_def split_var_loop.simps shl_one_def compute_pi_def
      shr_def)

text \<open>
  Claim C10. For every split width and round index, the table returned by
  \<open>compute_constant\<close> for either boolean, every table returned by \<open>compute_pi\<close> for any
  index, and \<open>compute_not\<close> of a table of width \<open>split_var\<close> have exactly \<open>split_var\<close>
  variables (and \<open>2 ^ split_var\<close> entries): all tables of a round share one width.
\<close>

theorem round_tables_share_width:
  "num_vars (compute_constant s v) = unat (sim_split_var s) \<and>
   length (bits (compute_constant s v)) = 2 ^ unat (sim_split_var s) \<and>
   (compute_pi s index = Inr t \<longrightarrow>
      num_vars t = unat (sim_split_var s) \<and> length (bits t) = 2 ^ unat (sim_split_var s)) \<and>
   (num_vars t' = unat (sim_split_var s) \<and> length (bits t') = 2 ^ unat (sim_split_var s) \<longrightarrow>
      num_vars (compute_not s t') = unat (sim_split_var s) \<and>
      length (bits (compute_not s t')) = 2 ^ unat (sim_split_var s))"
  by (auto simp: compute_constant_def compute_pi_def compute_not_def unary_not_def
      new_truth_table_def create_nth_var_def Let_def split: sum.splits if_splits)

theorem round_tables_share_width_witness:
  "compute_pi \<lparr>sim_split_var = 2, sim_round = 1\<rparr> 3 =
     Inr \<lparr>num_vars = 2, bits = [True, True, True, True]\<rparr> \<and>
   num_vars \<lparr>num_vars = 2, bits = [False, True, True, False]\<rparr>
     = unat (sim_split_var \<lparr>sim_split_var = 2, sim_round = 1\<rparr>) \<and>
   num_vars (compute_constant \<lparr>sim_split_var = 2, sim_round = 1\<rparr> True) = 2 \<and>
   num_vars \<lparr>num_vars = 2, bits = [True, True, True, True]\<rparr> = 2 \<and>
   num_vars (compute_not \<lparr>sim_split_var = 2, sim_round = 1\<rparr>
     \<lparr>num_vars = 2, bits = [False, True, True, False]\<rparr>) = 2 \<and>
   length (bits (compute_not \<lparr>sim_split_var = 2, sim_round = 1\<rparr>
     \<lparr>num_vars = 2, bits = [False, True, True, False]\<rparr>)) = 4"
  using round_tables_share_width [of "\<lparr>sim_split_var = 2, sim_round = 1\<rparr>" True 3
      "\<lparr>num_vars = 2, bits = [True, True, True, True]\<rparr>"
      "\<lparr>num_vars = 2, bits = [False, True, True, False]\<rparr>"]
  by (simp add: compute_pi_round const_table_2 compute_constant_table compute_not_def
      unary_not_def)


section \<open>The split-variable calculator\<close>

lemma split_var_loop_range:
  "split_var_loop n_pis n_nodes m = Inr m' \<Longrightarrow> unat m \<le> unat n_pis + 1 \<Longrightarrow>
   unat m \<le> unat m' \<and> unat m' \<le> unat n_pis + 1"
proof (induction n_pis n_nodes m rule: split_var_loop.induct)
  case (1 n_pis n_nodes m)
  show ?case
  proof (cases "m \<le> n_pis")
    case False
    with "1.prems" show ?thesis
      by (simp add: split_var_loop.simps [of n_pis n_nodes m])
  next
    case True
    then have le: "unat m \<le> unat n_pis" by (simp add: word_le_nat_alt)
    show ?thesis
    proof (cases "shl_one (m - 3)")
      case (Inl e)
      with True "1.prems" show ?thesis
        by (simp add: split_var_loop.simps [of n_pis n_nodes m])
    next
      case (Inr s)
      have succ: "unat (m + 1) = unat m + 1"
        using shift_count_bound [OF Inr] by (simp add: unat_word_ariths)
      show ?thesis
      proof (cases "32 + s * n_nodes \<le> push_bit 29 1")
        case False
        with True Inr "1.prems" show ?thesis
          by (simp add: split_var_loop.simps [of n_pis n_nodes m])
      next
        case bound: True
        with True Inr "1.prems" have "split_var_loop n_pis n_nodes (m + 1) = Inr m'"
          by (simp add: split_var_loop.simps [of n_pis n_nodes m])
        from "1.IH" [OF True Inr bound this] succ le show ?thesis by simp
      qed
    qed
  qed
qed

text \<open>Whenever the calculator returns, the split width is at most the input count, and
  at least 6 for more than 6 inputs.\<close>

lemma calculate_split_var_range:
  assumes "calculate_split_var n_pis n_nodes = Inr sv"
  shows "unat sv \<le> unat n_pis \<and> (6 < unat n_pis \<longrightarrow> 6 \<le> unat sv)"
proof (cases "n_pis \<le> 6")
  case True
  then have "unat n_pis \<le> 6" by (simp add: word_le_nat_alt)
  with True assms show ?thesis by (auto simp: calculate_split_var_def)
next
  case False
  then have big: "7 \<le> unat n_pis" by (simp add: word_le_nat_alt)
  from False assms obtain m' where loop: "split_var_loop n_pis n_nodes 7 = Inr m'"
    and sv: "sv = m' - 1"
    by (auto simp: calculate_split_var_def split: sum.splits)
  from split_var_loop_range [OF loop] big
  have r: "7 \<le> unat m'" "unat m' \<le> unat n_pis + 1" by simp_all
  then have "unat (m' - 1) = unat m' - 1"
    by (simp add: unat_sub word_le_nat_alt)
  with r sv show ?thesis by arith
qed

lemma bound_holds_antimono:
  assumes "bound_holds m n_nodes" and "m' \<le> m"
  shows "bound_holds m' n_nodes"
proof -
  from assms(2) have "(2 :: nat) ^ (m' - 3) \<le> 2 ^ (m - 3)"
    by (intro power_increasing) simp_all
  then have "2 ^ (m' - 3) * n_nodes \<le> 2 ^ (m - 3) * n_nodes"
    by (rule mult_le_mono1)
  moreover from assms(1) have "32 + 2 ^ (m - 3) * n_nodes \<le> 2 ^ 29"
    unfolding bound_holds_def .
  ultimately show ?thesis
    unfolding bound_holds_def by linarith
qed

text \<open>When the sum \<open>32 + 2 ^ (m - 3) * num_nodes\<close> stays below \<open>2 ^ 32\<close>, the test of
  the loop is the bound in exact arithmetic.\<close>

lemma loop_test_exact:
  fixes m n_nodes :: u32
  assumes m7: "7 \<le> unat m" and small: "unat m - 3 < 32"
    and nowrap: "32 + 2 ^ (unat m - 3) * unat n_nodes < 2 ^ 32"
  shows "\<exists>s. shl_one (m - 3) = Inr s \<and>
    (32 + s * n_nodes \<le> push_bit 29 1 \<longleftrightarrow> bound_holds (unat m) (unat n_nodes))"
proof -
  from m7 have "3 \<le> m" by (simp add: word_le_nat_alt)
  then have um3: "unat (m - 3) = unat m - 3" by (simp add: unat_sub)
  with small have "m - 3 < 32" by (simp add: word_less_nat_alt)
  then obtain s where s: "shl_one (m - 3) = Inr s" by (simp add: shl_one_def)
  from shl_one_Inr [OF s] um3 have us: "unat s = 2 ^ (unat m - 3)" by simp
  have prod_lt: "2 ^ (unat m - 3) * unat n_nodes < (2 :: nat) ^ 32"
    using nowrap by simp
  have "unat (s * n_nodes) = (unat s * unat n_nodes) mod 2 ^ 32"
    by (simp add: unat_word_ariths)
  with us prod_lt have prod: "unat (s * n_nodes) = 2 ^ (unat m - 3) * unat n_nodes"
    by simp
  have "unat (32 + s * n_nodes) = (32 + unat (s * n_nodes)) mod 2 ^ 32"
    by (simp add: unat_word_ariths)
  with prod nowrap have sum: "unat (32 + s * n_nodes) = 32 + 2 ^ (unat m - 3) * unat n_nodes"
    by simp
  have lim: "unat (push_bit 29 1 :: u32) = 2 ^ 29" by simp
  have "32 + s * n_nodes \<le> push_bit 29 1 \<longleftrightarrow> bound_holds (unat m) (unat n_nodes)"
    unfolding word_le_nat_alt sum lim bound_holds_def ..
  with s show ?thesis by blast
qed

lemma split_var_loop_exact:
  assumes "0 < unat n_nodes" and "16 * unat n_nodes + 32 < 2 ^ 32"
    and "7 \<le> unat m" and "unat m \<le> unat n_pis + 1"
    and "\<forall>j. 7 \<le> j \<and> j < unat m \<longrightarrow> bound_holds j (unat n_nodes)"
  shows "\<exists>m'. split_var_loop n_pis n_nodes m = Inr m' \<and>
      unat m \<le> unat m' \<and> unat m' \<le> unat n_pis + 1 \<and>
      (\<forall>j. 7 \<le> j \<and> j < unat m' \<longrightarrow> bound_holds j (unat n_nodes)) \<and>
      (unat m' \<le> unat n_pis \<longrightarrow> \<not> bound_holds (unat m') (unat n_nodes))"
  using assms
proof (induction n_pis n_nodes m rule: split_var_loop.induct)
  case (1 n_pis n_nodes m)
  note pos = "1.prems"(1) and nowrap16 = "1.prems"(2) and m7 = "1.prems"(3)
    and mle = "1.prems"(4) and below = "1.prems"(5)
  show ?case
  proof (cases "m \<le> n_pis")
    case False
    then have "\<not> unat m \<le> unat n_pis" by (simp add: word_le_nat_alt)
    with False m7 mle below show ?thesis
      by (simp add: split_var_loop.simps [of n_pis n_nodes m])
  next
    case True
    then have le: "unat m \<le> unat n_pis" by (simp add: word_le_nat_alt)
    have fits: "unat m - 3 < 32 \<and> 32 + 2 ^ (unat m - 3) * unat n_nodes < 2 ^ 32"
    proof (cases "unat m = 7")
      case True
      with nowrap16 show ?thesis by simp
    next
      case False
      with m7 have prev: "7 \<le> unat m - 1 \<and> unat m - 1 < unat m" by simp
      with below have "bound_holds (unat m - 1) (unat n_nodes)" by blast
      moreover from False m7 obtain k where k: "unat m - 3 = Suc k"
        by (cases "unat m - 3") simp_all
      moreover from k have "unat m - 1 - 3 = k" by simp
      ultimately have b: "32 + 2 ^ k * unat n_nodes \<le> 2 ^ 29"
        unfolding bound_holds_def by simp
      have "(2 :: nat) ^ k \<le> 2 ^ k * unat n_nodes"
        using pos by simp
      with b have "(2 :: nat) ^ k < 2 ^ 29" by linarith
      then have "k < 29" by (simp only: power_strict_increasing_iff)
      with k have small: "unat m - 3 < 32" by simp
      have "2 ^ Suc k * unat n_nodes = 2 * (2 ^ k * unat n_nodes)"
        by simp
      moreover have "(2 :: nat) ^ 29 = 536870912" and "(2 :: nat) ^ 32 = 4294967296"
        by simp_all
      ultimately have "32 + 2 ^ Suc k * unat n_nodes < 2 ^ 32"
        using b by linarith
      with k have "32 + 2 ^ (unat m - 3) * unat n_nodes < 2 ^ 32" by simp
      with small show ?thesis by simp
    qed
    from loop_test_exact [OF m7 _ _, of n_nodes] fits obtain s where
      s: "shl_one (m - 3) = Inr s" and
      test: "32 + s * n_nodes \<le> push_bit 29 1 \<longleftrightarrow> bound_holds (unat m) (unat n_nodes)"
      by blast
    have succ: "unat (m + 1) = unat m + 1"
      using shift_count_bound [OF s] by (simp add: unat_word_ariths)
    show ?thesis
    proof (cases "32 + s * n_nodes \<le> push_bit 29 1")
      case False
      with test have "\<not> bound_holds (unat m) (unat n_nodes)" by simp
      with True False s m7 mle below show ?thesis
        by (simp add: split_var_loop.simps [of n_pis n_nodes m])
    next
      case bound: True
      with test have here: "bound_holds (unat m) (unat n_nodes)" by simp
      have below': "\<forall>j. 7 \<le> j \<and> j < unat (m + 1) \<longrightarrow> bound_holds j (unat n_nodes)"
      proof (intro allI impI)
        fix j assume j: "7 \<le> j \<and> j < unat (m + 1)"
        show "bound_holds j (unat n_nodes)"
        proof (cases "j = unat m")
          case True
          with here show ?thesis by simp
        next
          case False
          with j succ have "7 \<le> j \<and> j < unat m" by simp
          with below show ?thesis by blast
        qed
      qed
      have m7': "7 \<le> unat (m + 1)" and mle': "unat (m + 1) \<le> unat n_pis + 1"
        using succ m7 le by simp_all
      from "1.IH" [OF True s bound pos nowrap16 m7' mle' below']
      obtain m' where
        loop: "split_var_loop n_pis n_nodes (m + 1) = Inr m'" and
        rest: "unat (m + 1) \<le> unat m'" "unat m' \<le> unat n_pis + 1"
          "\<forall>j. 7 \<le> j \<and> j < unat m' \<longrightarrow> bound_holds j (unat n_nodes)"
          "unat m' \<le> unat n_pis \<longrightarrow> \<not> bound_holds (unat m') (unat n_nodes)"
        by blast
      have "split_var_loop n_pis n_nodes m = Inr m'"
        using True s bound loop by (simp add: split_var_loop.simps [of n_pis n_nodes m])
      moreover have "unat m \<le> unat m'" using rest(1) succ by simp
      ultimately show ?thesis using rest by blast
    qed
  qed
qed

text \<open>
  Without 32-bit overflow in the bound (at least one node, and
  \<open>16 * num_nodes + 32 < 2 ^ 32\<close>), the calculator returns, and it returns the split width
  of the specification.
\<close>

lemma calculate_split_var_refines:
  assumes pos: "0 < unat n_nodes" and nowrap: "16 * unat n_nodes + 32 < 2 ^ 32"
  shows "\<exists>sv. calculate_split_var n_pis n_nodes = Inr sv \<and>
               unat sv = split_var_spec (unat n_pis) (unat n_nodes)"
proof (cases "n_pis \<le> 6")
  case True
  then have "unat n_pis \<le> 6" by (simp add: word_le_nat_alt)
  with True show ?thesis by (simp add: calculate_split_var_def split_var_spec_def)
next
  case False
  then have big: "7 \<le> unat n_pis" by (simp add: word_le_nat_alt)
  have "\<exists>m'. split_var_loop n_pis n_nodes 7 = Inr m' \<and>
      unat (7 :: u32) \<le> unat m' \<and> unat m' \<le> unat n_pis + 1 \<and>
      (\<forall>j. 7 \<le> j \<and> j < unat m' \<longrightarrow> bound_holds j (unat n_nodes)) \<and>
      (unat m' \<le> unat n_pis \<longrightarrow> \<not> bound_holds (unat m') (unat n_nodes))"
    using pos nowrap big by (intro split_var_loop_exact) auto
  then obtain m' where loop: "split_var_loop n_pis n_nodes 7 = Inr m'"
    and lo: "7 \<le> unat m'" and hi: "unat m' \<le> unat n_pis + 1"
    and below: "\<forall>j. 7 \<le> j \<and> j < unat m' \<longrightarrow> bound_holds j (unat n_nodes)"
    and at: "unat m' \<le> unat n_pis \<longrightarrow> \<not> bound_holds (unat m') (unat n_nodes)"
    by auto
  let ?S = "{m \<in> {7..unat n_pis}. bound_holds m (unat n_nodes)}"
  have S: "?S = {7..<unat m'}"
  proof (intro equalityI subsetI)
    fix j assume "j \<in> ?S"
    then have j: "7 \<le> j" "j \<le> unat n_pis" "bound_holds j (unat n_nodes)" by simp_all
    have "j < unat m'"
    proof (rule ccontr)
      assume "\<not> j < unat m'"
      then have "unat m' \<le> j" by simp
      with j(3) have "bound_holds (unat m') (unat n_nodes)" by (rule bound_holds_antimono)
      moreover from \<open>unat m' \<le> j\<close> j(2) have "unat m' \<le> unat n_pis" by simp
      ultimately show False using at by simp
    qed
    with j(1) show "j \<in> {7..<unat m'}" by simp
  next
    fix j assume "j \<in> {7..<unat m'}"
    then have j: "7 \<le> j" "j < unat m'" by simp_all
    with below have "bound_holds j (unat n_nodes)" by blast
    moreover from j(2) hi have "j \<le> unat n_pis" by simp
    ultimately show "j \<in> ?S" using j(1) by simp
  qed
  have "Max (insert 6 {7..<unat m'}) = unat m' - 1"
  proof (rule Max_eqI)
    show "finite (insert 6 {7..<unat m'})" by simp
  next
    fix y assume "y \<in> insert 6 {7..<unat m'}"
    with lo show "y \<le> unat m' - 1" by auto
  next
    from lo show "unat m' - 1 \<in> insert 6 {7..<unat m'}" by auto
  qed
  with S False big have spec: "split_var_spec (unat n_pis) (unat n_nodes) = unat m' - 1"
    by (simp add: split_var_spec_def)
  from lo have "unat (m' - 1) = unat m' - 1"
    by (simp add: unat_sub word_le_nat_alt)
  with spec loop False show ?thesis
    by (simp add: calculate_split_var_def)
qed

text \<open>
  Claim C5 fails on the code for large node counts. With 11 primary inputs and
  285212672 nodes (\<open>2 ^ 28 + 2 ^ 24\<close>) the product \<open>(1 << 4) * num_nodes\<close> wraps around
  in 32 bits to \<open>2 ^ 28\<close>, the test of the loop succeeds at \<open>m = 7\<close> and fails at
  \<open>m = 8\<close>, and the calculator returns 7. In exact arithmetic no \<open>m\<close> from 7 on satisfies
  the bound, so the claimed result is 6; and read in 32-bit arithmetic the bound holds
  again at \<open>m = 11\<close>, so that 7 is not the largest such \<open>m\<close> under that reading either.
\<close>

theorem calculate_split_var_wraps:
  "calculate_split_var 11 285212672 = Inr 7 \<and>
   split_var_spec 11 285212672 = 6 \<and>
   (32 + push_bit (11 - 3) 1 * 285212672 :: u32) \<le> push_bit 29 1"
proof -
  have code: "calculate_split_var 11 285212672 = Inr 7"
    by (simp add: calculate_split_var_def split_var_loop.simps shl_one_def)
  have "{m \<in> {7..11}. bound_holds m 285212672} = {}"
  proof -
    have "\<not> bound_holds m 285212672" if "7 \<le> m" for m
    proof -
      from that have "(2 :: nat) ^ 4 \<le> 2 ^ (m - 3)"
        by (intro power_increasing) simp_all
      then have "2 ^ 4 * (285212672 :: nat) \<le> 2 ^ (m - 3) * 285212672"
        by (rule mult_le_mono1)
      then show ?thesis by (simp add: bound_holds_def)
    qed
    then show ?thesis by auto
  qed
  then have "Max (insert 6 {m \<in> {7..11}. bound_holds m 285212672}) = 6"
    by (simp only: Max_singleton)
  then have spec: "split_var_spec 11 285212672 = 6"
    unfolding split_var_spec_def by simp
  have "(32 + push_bit (11 - 3) 1 * 285212672 :: u32) \<le> push_bit 29 1"
    by simp
  with code spec show ?thesis by simp
qed

section \<open>The driver\<close>

lemma scan_all_zero:
  "\<forall>t\<in>set ts. is_const0 t \<Longrightarrow> scan_outputs r i ts = (True, map (Checked r) [i..<i + length ts])"
proof (induction ts arbitrary: i)
  case Nil
  then show ?case by simp
next
  case (Cons t ts)
  then show ?case by (simp add: upt_rec)
qed

lemma scan_first_hit:
  "\<forall>z\<in>set zs. is_const0 z \<Longrightarrow> \<not> is_const0 t \<Longrightarrow>
   scan_outputs r i (zs @ t # rest) = (False, map (Checked r) [i..<i + Suc (length zs)])"
proof (induction zs arbitrary: i)
  case Nil
  then show ?case by simp
next
  case (Cons z zs)
  then show ?case by (simp add: upt_rec)
qed

lemma loop_first_hit:
  assumes "r < rounds st"
    and "sim \<lparr>sim_split_var = split_var st, sim_round = r\<rparr> = zs @ t # rest"
    and "\<forall>z\<in>set zs. is_const0 z" and "\<not> is_const0 t"
  shows "rounds_loop sim st r = (False, Simulated r # map (Checked r) [0..<Suc (length zs)])"
  using assms scan_first_hit [of zs t r 0 rest]
  by (simp add: rounds_loop.simps [of sim st r])

lemma loop_zero_round:
  assumes "r < rounds st"
    and "\<forall>t\<in>set (sim \<lparr>sim_split_var = split_var st, sim_round = r\<rparr>). is_const0 t"
  shows "rounds_loop sim st r =
    (case rounds_loop sim st (r + 1) of
       (b, evs) \<Rightarrow> (b, round_steps sim (split_var st) r @ evs))"
  using assms scan_all_zero [of "sim \<lparr>sim_split_var = split_var st, sim_round = r\<rparr>" r 0]
  by (simp add: rounds_loop.simps [of sim st r] round_steps_def split: prod.splits)

lemma loop_zero_rounds:
  assumes "unat r0 \<le> unat (rounds st)"
    and "\<forall>k<unat r0. j \<le> k \<longrightarrow> (\<forall>t\<in>set (sim \<lparr>sim_split_var = split_var st, sim_round = of_nat k\<rparr>). is_const0 t)"
    and "j \<le> unat r0"
  shows "rounds_loop sim st (of_nat j) =
    (case rounds_loop sim st r0 of
       (b, evs) \<Rightarrow> (b, concat (map (\<lambda>k. round_steps sim (split_var st) (of_nat k)) [j..<unat r0]) @ evs))"
  using assms
proof (induction "unat r0 - j" arbitrary: j)
  case 0
  then have "j = unat r0" by simp
  then show ?case by (simp split: prod.splits)
next
  case (Suc d)
  then have jlt: "j < unat r0" by simp
  have bound: "unat r0 < 2 ^ 32" using unsigned_less [of r0] by simp
  have uj: "unat (of_nat j :: u32) = j"
    using jlt le_unat_uoi [of j r0] by simp
  have lt: "(of_nat j :: u32) < rounds st"
    using jlt Suc.prems(1) uj by (simp add: word_less_nat_alt)
  have next_j: "(of_nat j :: u32) + 1 = of_nat (Suc j)" by simp
  have zero: "\<forall>t\<in>set (sim \<lparr>sim_split_var = split_var st, sim_round = of_nat j\<rparr>). is_const0 t"
    using Suc.prems(2) jlt by simp
  have ih: "rounds_loop sim st (of_nat (Suc j)) =
    (case rounds_loop sim st r0 of
       (b, evs) \<Rightarrow> (b, concat (map (\<lambda>k. round_steps sim (split_var st) (of_nat k)) [Suc j..<unat r0]) @ evs))"
    using Suc.hyps(1) [of "Suc j"] Suc.hyps(2) Suc.prems jlt by simp
  have split: "[j..<unat r0] = j # [Suc j..<unat r0]"
    using jlt by (simp add: upt_conv_Cons)
  have step: "rounds_loop sim st (of_nat j) =
    (case rounds_loop sim st (of_nat j + 1) of
       (b, evs) \<Rightarrow> (b, round_steps sim (split_var st) (of_nat j) @ evs))"
    using lt zero by (rule loop_zero_round [where sim = sim and st = st and r = "of_nat j"])
  show ?case
    unfolding step next_j ih split
    by (simp split: prod.splits)
qed

lemma run_unfold:
  assumes "calculate_split_var (num_pis N ntk) (size_ntk N ntk) = Inr sv"
    and "shl_one (num_pis N ntk - sv) = Inr n"
  shows "run N ntk st =
    (case rounds_loop (simulate N ntk) (st\<lparr>split_var := sv, rounds := n\<rparr>) 0 of
       (b, evs) \<Rightarrow> Inr (b, st\<lparr>split_var := sv, rounds := n\<rparr>, evs))"
  using assms by (simp add: run_def Let_def)

text \<open>
  Claim C3. Take an execution of the driver (the split width \<open>sv\<close> and the round count
  \<open>n\<close> have been computed) in which some round \<open>r\<close> below \<open>n\<close> produces an output table
  \<open>t\<close> that is not identically zero. Then there is a first such round \<open>r0\<close> (all outputs
  of all earlier rounds are zero) and in it a first non-zero output \<open>t0\<close>, at position
  \<open>length zs\<close>; the driver returns \<open>False\<close>, and its steps are exactly the complete
  rounds before \<open>r0\<close>, the simulation of round \<open>r0\<close> and the zero tests of its outputs
  up to and including \<open>t0\<close>. The test that finds \<open>t0\<close> is the last step: no later
  output of round \<open>r0\<close> is tested and no later round is simulated.
\<close>

theorem run_early_exit:
  assumes sv: "calculate_split_var (num_pis N ntk) (size_ntk N ntk) = Inr sv"
    and n: "shl_one (num_pis N ntk - sv) = Inr n"
    and r: "r < n"
    and t: "t \<in> set (simulate N ntk \<lparr>sim_split_var = sv, sim_round = r\<rparr>)"
    and nz: "\<not> is_const0 t"
  shows "\<exists>r0 zs t0 rest.
      r0 \<le> r \<and>
      (\<forall>r'. r' < r0 \<longrightarrow>
         (\<forall>z\<in>set (simulate N ntk \<lparr>sim_split_var = sv, sim_round = r'\<rparr>). is_const0 z)) \<and>
      simulate N ntk \<lparr>sim_split_var = sv, sim_round = r0\<rparr> = zs @ t0 # rest \<and>
      (\<forall>z\<in>set zs. is_const0 z) \<and> \<not> is_const0 t0 \<and>
      run N ntk st =
        Inr (False, st\<lparr>split_var := sv, rounds := n\<rparr>,
             concat (map (\<lambda>k. round_steps (simulate N ntk) sv (of_nat k)) [0..<unat r0])
               @ Simulated r0 # map (Checked r0) [0..<Suc (length zs)])"
proof -
  let ?sim = "simulate N ntk"
  let ?st = "st\<lparr>split_var := sv, rounds := n\<rparr>"
  let ?outs = "\<lambda>w. ?sim \<lparr>sim_split_var = sv, sim_round = w\<rparr>"
  define P where "P k \<longleftrightarrow> (\<exists>z\<in>set (?outs (of_nat k)). \<not> is_const0 z)" for k
  define k0 where "k0 = (LEAST k. P k)"
  have "P (unat r)" using t nz by (auto simp: P_def)
  then have Pk0: "P k0" and k0_le: "k0 \<le> unat r" and least: "\<And>k. k < k0 \<Longrightarrow> \<not> P k"
    unfolding k0_def by (auto intro: LeastI Least_le dest: not_less_Least)
  define r0 :: u32 where "r0 = of_nat k0"
  have u0: "unat r0 = k0"
    unfolding r0_def using k0_le by (rule le_unat_uoi)
  have r0_le: "r0 \<le> r"
    using k0_le u0 by (simp add: word_le_nat_alt)
  have r0_lt: "r0 < n"
    using r0_le r by simp
  have before: "\<forall>z\<in>set (?outs r'). is_const0 z" if "r' < r0" for r'
  proof -
    from that have "unat r' < k0" using u0 by (simp add: word_less_nat_alt)
    then have "\<not> P (unat r')" by (rule least)
    then show ?thesis by (simp add: P_def)
  qed
  from Pk0 have "\<exists>z\<in>set (?outs r0). \<not> is_const0 z"
    by (simp add: P_def r0_def)
  then obtain zs t0 rest where
    outs: "?outs r0 = zs @ t0 # rest" and t0: "\<not> is_const0 t0"
    and zs: "\<forall>z\<in>set zs. \<not> \<not> is_const0 z"
    using split_list_first_prop [of "?outs r0" "\<lambda>z. \<not> is_const0 z"] by blast
  from zs have zs': "\<forall>z\<in>set zs. is_const0 z" by simp
  have hit: "rounds_loop ?sim ?st r0 =
      (False, Simulated r0 # map (Checked r0) [0..<Suc (length zs)])"
    using r0_lt outs zs' t0
    by (intro loop_first_hit [where rest = rest and t = t0]) simp_all
  have zero_before: "\<forall>k<unat r0. 0 \<le> k \<longrightarrow>
      (\<forall>z\<in>set (?sim \<lparr>sim_split_var = split_var ?st, sim_round = of_nat k\<rparr>). is_const0 z)"
  proof (intro allI impI)
    fix k assume k: "k < unat r0"
    then have "unat (of_nat k :: u32) = k"
      using le_unat_uoi [of k r0] by simp
    with k have "(of_nat k :: u32) < r0" by (simp add: word_less_nat_alt)
    from before [OF this]
    show "\<forall>z\<in>set (?sim \<lparr>sim_split_var = split_var ?st, sim_round = of_nat k\<rparr>). is_const0 z"
      by simp
  qed
  have le_n: "unat r0 \<le> unat (rounds ?st)"
    using r0_lt by (simp add: word_less_nat_alt)
  have "rounds_loop ?sim ?st (of_nat 0) =
      (case rounds_loop ?sim ?st r0 of
         (b, evs) \<Rightarrow>
           (b, concat (map (\<lambda>k. round_steps ?sim (split_var ?st) (of_nat k)) [0..<unat r0]) @ evs))"
    using le_n zero_before by (rule loop_zero_rounds) simp
  then have loop: "rounds_loop ?sim ?st 0 =
      (False, concat (map (\<lambda>k. round_steps ?sim sv (of_nat k)) [0..<unat r0])
                @ Simulated r0 # map (Checked r0) [0..<Suc (length zs)])"
    by (simp add: hit)
  have "run N ntk st =
      Inr (False, ?st,
           concat (map (\<lambda>k. round_steps ?sim sv (of_nat k)) [0..<unat r0])
             @ Simulated r0 # map (Checked r0) [0..<Suc (length zs)])"
    by (simp add: run_unfold [OF sv n] loop)
  with r0_le before outs zs' t0 show ?thesis by blast
qed

text \<open>Seven inputs and 33554431 nodes give split width 6 and two rounds. The second of
  three constant outputs is 1: the driver stops in round 0 after two zero tests.\<close>

theorem run_early_exit_witness:
  "calculate_split_var (num_pis toy_api \<lparr>toy_pis = 7, toy_nodes = 33554431, toy_pos = [False, True, False]\<rparr>) (size_ntk toy_api \<lparr>toy_pis = 7, toy_nodes = 33554431, toy_pos = [False, True, False]\<rparr>) = Inr 6 \<and>
   shl_one (num_pis toy_api \<lparr>toy_pis = 7, toy_nodes = 33554431, toy_pos = [False, True, False]\<rparr> - 6) = Inr 2 \<and>
   (1 :: u32) < 2 \<and>
   const_table 6 True \<in> set (simulate toy_api \<lparr>toy_pis = 7, toy_nodes = 33554431, toy_pos = [False, True, False]\<rparr> \<lparr>sim_split_var = 6, sim_round = 1\<rparr>) \<and>
   \<not> is_const0 (const_table 6 True) \<and>
   run toy_api \<lparr>toy_pis = 7, toy_nodes = 33554431, toy_pos = [False, True, False]\<rparr> \<lparr>split_var = 0, rounds = 0\<rparr> =
     Inr (False, \<lparr>split_var = 6, rounds = 2\<rparr>, [Simulated 0, Checked 0 0, Checked 0 1])"
proof -
  let ?X = "\<lparr>toy_pis = 7, toy_nodes = 33554431, toy_pos = [False, True, False]\<rparr>"
  have h1: "calculate_split_var (num_pis toy_api ?X) (size_ntk toy_api ?X) = Inr 6"
    by (simp add: toy_api_def calculate_split_var_def split_var_loop.simps shl_one_def)
  have h2: "shl_one (num_pis toy_api ?X - 6) = Inr 2"
    by (simp add: toy_api_def shl_one_def)
  have h3: "(1 :: u32) < 2" by simp
  have outs: "simulate toy_api ?X \<lparr>sim_split_var = 6, sim_round = r\<rparr> =
      [const_table 6 False, const_table 6 True, const_table 6 False]" for r
    by (simp add: toy_api_def toy_simulate_def compute_constant_table)
  have h4: "const_table 6 True \<in> set (simulate toy_api ?X \<lparr>sim_split_var = 6, sim_round = 1\<rparr>)"
    by (simp add: outs)
  have h5: "\<not> is_const0 (const_table 6 True)"
    by (simp add: is_const0_const_table)
  from run_early_exit [OF h1 h2 h3 h4 h5, of "\<lparr>split_var = 0, rounds = 0\<rparr>"]
  obtain r0 zs t0 rest where
    first: "\<forall>r'. r' < r0 \<longrightarrow>
      (\<forall>z\<in>set (simulate toy_api ?X \<lparr>sim_split_var = 6, sim_round = r'\<rparr>). is_const0 z)"
    and split: "simulate toy_api ?X \<lparr>sim_split_var = 6, sim_round = r0\<rparr> = zs @ t0 # rest"
    and zs: "\<forall>z\<in>set zs. is_const0 z" and t0: "\<not> is_const0 t0"
    and run: "run toy_api ?X \<lparr>split_var = 0, rounds = 0\<rparr> =
        Inr (False, \<lparr>split_var = 0, rounds = 0\<rparr>\<lparr>split_var := 6, rounds := 2\<rparr>,
             concat (map (\<lambda>k. round_steps (simulate toy_api ?X) 6 (of_nat k)) [0..<unat r0])
               @ Simulated r0 # map (Checked r0) [0..<Suc (length zs)])"
    by blast
  have "r0 = 0"
  proof (rule ccontr)
    assume "r0 \<noteq> 0"
    then have "0 < r0" by (simp add: word_greater_zero_iff)
    with first have "\<forall>z\<in>set (simulate toy_api ?X \<lparr>sim_split_var = 6, sim_round = 0\<rparr>). is_const0 z"
      by blast
    then show False by (simp add: outs is_const0_const_table)
  qed
  have "zs = [const_table 6 False]"
  proof (cases zs)
    case Nil
    with split t0 show ?thesis by (auto simp: outs is_const0_const_table)
  next
    case (Cons z zs')
    note outer = Cons
    show ?thesis
    proof (cases zs')
      case Nil
      with outer split show ?thesis by (auto simp: outs)
    next
      case (Cons z' zs'')
      with outer split zs show ?thesis by (auto simp: outs is_const0_const_table)
    qed
  qed
  with run \<open>r0 = 0\<close> have "run toy_api ?X \<lparr>split_var = 0, rounds = 0\<rparr> =
      Inr (False, \<lparr>split_var = 6, rounds = 2\<rparr>, [Simulated 0, Checked 0 0, Checked 0 1])"
    by (simp add: upt_rec)
  with h1 h2 h3 h4 h5 show ?thesis by simp
qed

text \<open>When every output of every round is zero, the driver simulates and tests all
  rounds and returns \<open>True\<close>.\<close>

lemma run_all_zero:
  assumes sv: "calculate_split_var (num_pis N ntk) (size_ntk N ntk) = Inr sv"
    and n: "shl_one (num_pis N ntk - sv) = Inr n"
    and zero: "\<forall>r. r < n \<longrightarrow>
      (\<forall>z\<in>set (simulate N ntk \<lparr>sim_split_var = sv, sim_round = r\<rparr>). is_const0 z)"
  shows "run N ntk st =
    Inr (True, st\<lparr>split_var := sv, rounds := n\<rparr>,
         concat (map (\<lambda>k. round_steps (simulate N ntk) sv (of_nat k)) [0..<unat n]))"
proof -
  let ?sim = "simulate N ntk"
  let ?st = "st\<lparr>split_var := sv, rounds := n\<rparr>"
  have zero': "\<forall>k<unat n. 0 \<le> k \<longrightarrow>
      (\<forall>z\<in>set (?sim \<lparr>sim_split_var = split_var ?st, sim_round = of_nat k\<rparr>). is_const0 z)"
  proof (intro allI impI)
    fix k assume k: "k < unat n"
    then have "unat (of_nat k :: u32) = k"
      using le_unat_uoi [of k n] by simp
    with k have "(of_nat k :: u32) < n" by (simp add: word_less_nat_alt)
    with zero
    show "\<forall>z\<in>set (?sim \<lparr>sim_split_var = split_var ?st, sim_round = of_nat k\<rparr>). is_const0 z"
      by simp
  qed
  have stop: "rounds_loop ?sim ?st n = (True, [])"
    by (simp add: rounds_loop.simps [of ?sim ?st n])
  have le: "unat n \<le> unat (rounds ?st)" by simp
  have "rounds_loop ?sim ?st (of_nat 0) =
      (case rounds_loop ?sim ?st n of
         (b, evs) \<Rightarrow>
           (b, concat (map (\<lambda>k. round_steps ?sim (split_var ?st) (of_nat k)) [0..<unat n]) @ evs))"
    using le zero' by (rule loop_zero_rounds) simp
  then have "rounds_loop ?sim ?st 0 =
      (True, concat (map (\<lambda>k. round_steps ?sim sv (of_nat k)) [0..<unat n]))"
    by (simp add: stop)
  then show ?thesis by (simp add: run_unfold [OF sv n])
qed

text \<open>Whenever the driver returns, the stats it leaves satisfy the relation between the
  round count and the split width.\<close>

lemma run_stats:
  assumes "run N ntk st = Inr (b, st', evs)"
  shows "unat (split_var st') \<le> unat (num_pis N ntk) \<and>
         unat (rounds st') = 2 ^ (unat (num_pis N ntk) - unat (split_var st'))"
proof -
  from assms obtain sv n where
    sv: "calculate_split_var (num_pis N ntk) (size_ntk N ntk) = Inr sv"
    and n: "shl_one (num_pis N ntk - sv) = Inr n"
    and st': "st' = st\<lparr>split_var := sv, rounds := n\<rparr>"
    by (auto simp: run_def Let_def split: sum.splits prod.splits)
  from calculate_split_var_range [OF sv] have le: "unat sv \<le> unat (num_pis N ntk)" by simp
  then have "unat (num_pis N ntk - sv) = unat (num_pis N ntk) - unat sv"
    by (simp add: unat_sub word_le_nat_alt)
  with shl_one_Inr [OF n] le st' show ?thesis by simp
qed

text \<open>
  Claim C2 fails on the code for 40 inputs and a large miter. With 40 primary inputs
  and 8388608 nodes (\<open>2 ^ 23\<close>) the calculator returns split width 8, and the round count
  is computed as \<open>1 << 32\<close> on a 32-bit \<open>int\<close>: the shift has no defined result, and
  no value of the 32-bit field \<open>rounds\<close> equals \<open>2 ^ (40 - 8)\<close>. The entry point reaches
  this for two networks of 40 inputs and 4194304 nodes each.
\<close>

theorem rounds_shift_undefined:
  "calculate_split_var 40 8388608 = Inr 8 \<and>
   shl_one (40 - 8) = Inl Undefined_Shift \<and>
   run toy_api \<lparr>toy_pis = 40, toy_nodes = 8388608, toy_pos = [False]\<rparr> \<lparr>split_var = 0, rounds = 0\<rparr>
     = Inl Undefined_Shift \<and>
   simulation_cec toy_api
     \<lparr>toy_pis = 40, toy_nodes = 4194304, toy_pos = [False]\<rparr>
     \<lparr>toy_pis = 40, toy_nodes = 4194304, toy_pos = [False]\<rparr> None
     = Inl Undefined_Shift \<and>
   (\<forall>w :: u32. unat w \<noteq> 2 ^ (40 - 8))"
proof -
  have sv: "calculate_split_var 40 8388608 = Inr 8"
    by (simp add: calculate_split_var_def split_var_loop.simps shl_one_def)
  have sh: "shl_one (40 - 8) = Inl Undefined_Shift"
    by (simp add: shl_one_def)
  have run: "run toy_api \<lparr>toy_pis = 40, toy_nodes = 8388608, toy_pos = pos\<rparr> \<lparr>split_var = 0, rounds = 0\<rparr>
      = Inl Undefined_Shift" for pos
    using sv sh by (simp add: run_def toy_api_def)
  have "simulation_cec toy_api
     \<lparr>toy_pis = 40, toy_nodes = 4194304, toy_pos = [False]\<rparr>
     \<lparr>toy_pis = 40, toy_nodes = 4194304, toy_pos = [False]\<rparr> None
     = Inl Undefined_Shift"
    using run [of "[False]"] by (simp add: simulation_cec_def toy_api_def toy_miter_def)
  moreover have "unat w \<noteq> 2 ^ (40 - 8)" for w :: u32
    using unsigned_less [of w, where ?'a = nat] by simp
  ultimately show ?thesis using sv sh run by simp
qed

section \<open>The enumeration of the input space\<close>

lemma input_value_split:
  assumes "i < unat sv" and "p < 2 ^ unat sv"
  shows "input_value \<lparr>sim_split_var = sv, sim_round = r\<rparr> p (of_nat i) = Inr (bit p i)"
proof -
  have ui: "unat (of_nat i :: u32) = i"
    using assms(1) le_unat_uoi [of i sv] by simp
  then have lt: "(of_nat i :: u32) < sv"
    using assms(1) by (simp add: word_less_nat_alt)
  show ?thesis
    using lt ui assms(2)
    by (simp add: input_value_def compute_pi_split get_bit_indicator_table)
qed

lemma input_value_round:
  fixes n_pis :: u32
  assumes "unat sv \<le> i" and "i < unat n_pis" and "unat n_pis - unat sv \<le> 32" and "p < 2 ^ unat sv"
  shows "input_value \<lparr>sim_split_var = sv, sim_round = r\<rparr> p (of_nat i) =
         Inr (\<not> bit r (i - unat sv))"
proof -
  have ui: "unat (of_nat i :: u32) = i"
    using assms(2) le_unat_uoi [of i n_pis] by simp
  then have ge: "sv \<le> (of_nat i :: u32)"
    using assms(1) by (simp add: word_le_nat_alt)
  then have nlt: "\<not> (of_nat i :: u32) < sv" by simp
  have ud: "unat (of_nat i - sv :: u32) = i - unat sv"
    using ge ui by (simp add: unat_sub)
  then have small: "(of_nat i - sv :: u32) < 32"
    using assms by (simp add: word_less_nat_alt)
  show ?thesis
    using nlt small ud assms(4)
    by (simp add: input_value_def compute_pi_round get_bit_const_table)
qed

lemma assignment_bits:
  assumes "unat sv \<le> unat n_pis" and "unat n_pis - unat sv \<le> 32" and "p < 2 ^ unat sv"
  shows "assignment n_pis sv r p =
    map (\<lambda>i. Inr (if i < unat sv then bit p i else \<not> bit r (i - unat sv))) [0..<unat n_pis]"
  unfolding assignment_def
proof (rule map_cong [OF refl])
  fix i assume "i \<in> set [0..<unat n_pis]"
  then have i: "i < unat n_pis" by simp
  show "input_value \<lparr>sim_split_var = sv, sim_round = r\<rparr> p (of_nat i) =
      Inr (if i < unat sv then bit p i else \<not> bit r (i - unat sv))"
  proof (cases "i < unat sv")
    case True
    then show ?thesis using assms(3) by (simp add: input_value_split)
  next
    case False
    then have "unat sv \<le> i" by simp
    from input_value_round [OF this i assms(2) assms(3)] False show ?thesis by simp
  qed
qed

lemma nat_eq_from_low_bits:
  fixes p q :: nat
  assumes "p < 2 ^ n" and "q < 2 ^ n" and "\<And>i. i < n \<Longrightarrow> bit p i = bit q i"
  shows "p = q"
proof (rule bit_eqI)
  fix i
  show "bit p i = bit q i"
  proof (cases "i < n")
    case True
    then show ?thesis by (rule assms(3))
  next
    case False
    then have le: "(2 :: nat) ^ n \<le> 2 ^ i" by simp
    have "p < 2 ^ i" using assms(1) le by (rule less_le_trans)
    moreover have "q < 2 ^ i" using assms(2) le by (rule less_le_trans)
    ultimately show ?thesis by (simp add: bit_iff_odd)
  qed
qed

lemma word_eq_from_low_bits:
  fixes r r' :: u32
  assumes "unat r < 2 ^ k" and "unat r' < 2 ^ k" and "\<And>j. j < k \<Longrightarrow> bit r j = bit r' j"
  shows "r = r'"
proof -
  have "unat r = unat r'"
  proof (rule nat_eq_from_low_bits [OF assms(1,2)])
    fix j assume j: "j < k"
    show "bit (unat r) j = bit (unat r') j"
      using assms(3) [OF j] by (simp add: bit_unsigned_iff)
  qed
  then show ?thesis by (simp add: word_unat_eq_iff)
qed

lemma card_words_below: "card {r :: u32. r < n} = unat n"
proof -
  have img: "{r :: u32. r < n} = of_nat ` {..<unat n}"
  proof (intro equalityI subsetI)
    fix r :: u32 assume "r \<in> {r. r < n}"
    then have "unat r < unat n" by (simp add: word_less_nat_alt)
    then have "unat r \<in> {..<unat n}" by simp
    moreover have "r = of_nat (unat r)" by simp
    ultimately show "r \<in> of_nat ` {..<unat n}" by (rule rev_image_eqI)
  next
    fix r :: u32 assume "r \<in> of_nat ` {..<unat n}"
    then obtain j where j: "j < unat n" and r: "r = of_nat j" by auto
    from j have "unat (of_nat j :: u32) = j" using le_unat_uoi [of j n] by simp
    with j r show "r \<in> {r. r < n}" by (simp add: word_less_nat_alt)
  qed
  have "inj_on (of_nat :: nat \<Rightarrow> u32) {..<unat n}"
  proof (rule inj_onI)
    fix a b assume a: "a \<in> {..<unat n}" and b: "b \<in> {..<unat n}"
      and eq: "(of_nat a :: u32) = of_nat b"
    from a have ua: "unat (of_nat a :: u32) = a" using le_unat_uoi [of a n] by simp
    from b have ub: "unat (of_nat b :: u32) = b" using le_unat_uoi [of b n] by simp
    from eq have "unat (of_nat a :: u32) = unat (of_nat b :: u32)" by (rule arg_cong)
    then show "a = b" by (simp only: ua ub)
  qed
  then have "card ((of_nat :: nat \<Rightarrow> u32) ` {..<unat n}) = card {..<unat n}"
    by (rule card_image)
  then show ?thesis
    unfolding img by simp
qed

lemma card_bool_lists: "card {bs :: bool list. length bs = m} = 2 ^ m"
  using card_lists_length_eq [of "UNIV :: bool set" m] by simp

lemma assignment_inj:
  fixes n_pis sv :: u32
  assumes le: "unat sv \<le> unat n_pis" and k: "unat n_pis - unat sv < 32"
    and p: "p < 2 ^ unat sv" and p': "p' < 2 ^ unat sv"
    and r: "unat r < 2 ^ (unat n_pis - unat sv)" and r': "unat r' < 2 ^ (unat n_pis - unat sv)"
    and eq: "assignment n_pis sv r p = assignment n_pis sv r' p'"
  shows "r = r' \<and> p = p'"
proof -
  let ?v = "\<lambda>r p i. if i < unat sv then bit p i else \<not> bit r (i - unat sv)"
  from k have k': "unat n_pis - unat sv \<le> 32" by simp
  have "map (\<lambda>i. (Inr (?v r p i) :: fault + bool)) [0..<unat n_pis] =
        map (\<lambda>i. Inr (?v r' p' i)) [0..<unat n_pis]"
    using eq assignment_bits [OF le k' p, of r] assignment_bits [OF le k' p', of r']
    by simp
  then have pointwise: "?v r p i = ?v r' p' i" if "i < unat n_pis" for i
    using that by simp
  have "p = p'"
  proof (rule nat_eq_from_low_bits [OF p p'])
    fix i assume i: "i < unat sv"
    with le have "i < unat n_pis" by simp
    from pointwise [OF this] i show "bit p i = bit p' i" by simp
  qed
  moreover have "r = r'"
  proof (rule word_eq_from_low_bits [OF r r'])
    fix j assume j: "j < unat n_pis - unat sv"
    then have "unat sv + j < unat n_pis" by simp
    from pointwise [OF this] show "bit r j = bit r' j" by simp
  qed
  ultimately show ?thesis by simp
qed

text \<open>
  Where the calculator produces a split width \<open>sv\<close> and the shift of the driver a round
  count \<open>n\<close>, the map that takes a round index below \<open>n\<close> and a table position below
  \<open>2 ^ sv\<close> to the input assignment read off the tables of \<open>compute_pi\<close> is a
  bijection onto the assignments of the \<open>num_pis\<close> inputs (all lists of \<open>num_pis\<close>
  booleans, none of them undefined): every input vector is covered exactly once.
\<close>

lemma rounds_enumerate_inputs:
  assumes sv: "calculate_split_var n_pis n_nodes = Inr sv"
    and n: "shl_one (n_pis - sv) = Inr n"
  shows "bij_betw (\<lambda>(r, p). assignment n_pis sv r p)
           ({r. r < n} \<times> {p. p < 2 ^ unat sv})
           (map Inr ` {bs. length bs = unat n_pis})"
proof -
  let ?D = "{r. r < n} \<times> {p :: nat. p < 2 ^ unat sv}"
  let ?B = "map Inr ` {bs :: bool list. length bs = unat n_pis} :: (fault + bool) list set"
  let ?f = "\<lambda>(r, p). assignment n_pis sv r p"
  let ?k = "unat n_pis - unat sv"
  from calculate_split_var_range [OF sv] have le: "unat sv \<le> unat n_pis" by simp
  then have "unat (n_pis - sv) = ?k"
    by (simp add: unat_sub word_le_nat_alt)
  with shl_one_Inr [OF n] have k: "?k < 32" and un: "unat n = 2 ^ ?k" by simp_all
  from k have k': "?k \<le> 32" by simp
  have inj: "inj_on ?f ?D"
  proof (rule inj_onI)
    fix x y assume x: "x \<in> ?D" and y: "y \<in> ?D" and eq: "?f x = ?f y"
    obtain r p where xp: "x = (r, p)" by (cases x)
    obtain r' p' where yp: "y = (r', p')" by (cases y)
    from x xp un have r: "unat r < 2 ^ ?k" and p: "p < 2 ^ unat sv"
      by (simp_all add: word_less_nat_alt)
    from y yp un have r': "unat r' < 2 ^ ?k" and p': "p' < 2 ^ unat sv"
      by (simp_all add: word_less_nat_alt)
    from eq xp yp have "assignment n_pis sv r p = assignment n_pis sv r' p'" by simp
    from assignment_inj [OF le k p p' r r' this] xp yp show "x = y" by simp
  qed
  have sub: "?f ` ?D \<subseteq> ?B"
  proof
    fix v assume "v \<in> ?f ` ?D"
    then obtain r p where p: "p < 2 ^ unat sv" and v: "v = assignment n_pis sv r p" by auto
    define bs where
      "bs = map (\<lambda>i. if i < unat sv then bit p i else \<not> bit r (i - unat sv)) [0..<unat n_pis]"
    have "v = map Inr bs"
      unfolding v assignment_bits [OF le k' p] bs_def by simp
    moreover have "length bs = unat n_pis"
      by (simp add: bs_def)
    ultimately show "v \<in> ?B" by blast
  qed
  have finB: "finite ?B"
    using finite_lists_length_eq [of "UNIV :: bool set" "unat n_pis"] by simp
  have "card ?D = unat n * 2 ^ unat sv"
    by (simp add: card_cartesian_product card_words_below)
  also have "\<dots> = 2 ^ unat n_pis"
    using le un by (simp flip: power_add)
  finally have cardD: "card ?D = 2 ^ unat n_pis" .
  have "inj (map (Inr :: bool \<Rightarrow> fault + bool))" by simp
  then have "inj_on (map (Inr :: bool \<Rightarrow> fault + bool)) {bs. length bs = unat n_pis}"
    by (rule inj_on_subset) simp
  then have cardB: "card ?B = 2 ^ unat n_pis"
    by (simp add: card_image card_bool_lists)
  have "card (?f ` ?D) = card ?B"
    using inj cardD cardB by (simp add: card_image)
  with finB sub have "?f ` ?D = ?B" by (rule card_subset_eq)
  with inj show ?thesis by (rule bij_betw_imageI)
qed

text \<open>Seven inputs and 33554431 nodes: split width 6, two rounds of 64 positions.\<close>

lemma rounds_enumerate_inputs_example:
  "calculate_split_var 7 33554431 = Inr 6 \<and>
   shl_one (7 - 6) = Inr 2 \<and>
   bij_betw (\<lambda>(r, p). assignment 7 6 r p)
     ({r. r < 2} \<times> {p. p < 2 ^ unat (6 :: u32)})
     (map Inr ` {bs. length bs = unat (7 :: u32)})"
proof -
  have h1: "calculate_split_var 7 33554431 = Inr 6"
    by (simp add: calculate_split_var_def split_var_loop.simps shl_one_def)
  have h2: "shl_one (7 - 6) = Inr 2"
    by (simp add: shl_one_def)
  from rounds_enumerate_inputs [OF h1 h2] h1 h2 show ?thesis by blast
qed

text \<open>
  Claim C6 says that for every input count, with the split width and the round count of
  the calculator, the map from a round index below the round count and a table position
  below \<open>2 ^ split_var\<close> to the input assignment is a bijection onto the vectors of
  \<open>num_pis\<close> booleans. It fails on the code for 40 inputs and a large miter. With 40
  primary inputs and 8388608 nodes (\<open>2 ^ 23\<close>) the split width is 8 and the round count
  is the undefined shift \<^verbatim>\<open>1 << 32\<close>; and whatever value the 32-bit field
  \<open>rounds\<close> then holds, fewer than \<open>2 ^ 32\<close> rounds of \<open>2 ^ 8\<close> positions cannot cover
  the \<open>2 ^ 40\<close> input vectors: for no round count is the map a bijection.
\<close>

theorem enumeration_fails_at_40_inputs:
  "calculate_split_var 40 8388608 = Inr 8 \<and>
   shl_one (40 - 8) = Inl Undefined_Shift \<and>
   (\<forall>n :: u32.
      \<not> bij_betw (\<lambda>(r, p). assignment 40 8 r p)
          ({r. r < n} \<times> {p. p < 2 ^ 8})
          (map Inr ` {bs. length bs = 40}))"
proof -
  have sv: "calculate_split_var 40 8388608 = Inr 8"
    by (simp add: calculate_split_var_def split_var_loop.simps shl_one_def)
  have sh: "shl_one (40 - 8) = Inl Undefined_Shift"
    by (simp add: shl_one_def)
  have no: "\<not> bij_betw (\<lambda>(r, p). assignment 40 8 r p)
      ({r. r < n} \<times> {p. p < 2 ^ 8}) (map Inr ` {bs. length bs = 40})" for n :: u32
  proof
    let ?D = "{r. r < n} \<times> {p :: nat. p < 2 ^ 8}"
    let ?B = "map Inr ` {bs :: bool list. length bs = 40} :: (fault + bool) list set"
    assume "bij_betw (\<lambda>(r, p). assignment 40 8 r p) ?D ?B"
    then have same: "card ?D = card ?B" by (rule bij_betw_same_card)
    have cardD: "card ?D = unat n * 2 ^ 8"
      by (simp add: card_cartesian_product card_words_below)
    have "inj (map (Inr :: bool \<Rightarrow> fault + bool))" by simp
    then have "inj_on (map (Inr :: bool \<Rightarrow> fault + bool)) {bs. length bs = 40}"
      by (rule inj_on_subset) simp
    then have cardB: "card ?B = 2 ^ 40"
      by (simp add: card_image card_bool_lists)
    have "unat n < 2 ^ 32" using unsigned_less [of n, where ?'a = nat] by simp
    then have "unat n * 2 ^ 8 < 2 ^ 32 * (2 :: nat) ^ 8" by simp
    then have "unat n * 2 ^ 8 < (2 :: nat) ^ 40" by simp
    with same cardD cardB show False by simp
  qed
  from sv sh no show ?thesis by blast
qed

section \<open>The entry point\<close>

text \<open>
  Claim C1, as amended. For every pair of networks such that the first has at most 40
  primary inputs and the miter construction fails, the entry point returns the boolean
  \<open>False\<close> (a present value, not the indeterminate result); it takes no step of the
  driver and, when a stats location is supplied, stores the default stats there.
\<close>

theorem miter_failure_returns_false:
  "\<not> 40 < num_pis N ntk1 \<Longrightarrow> miter N ntk1 ntk2 = None \<Longrightarrow>
   simulation_cec N ntk1 ntk2 pst =
     Inr (Some False,
          (case pst of None \<Rightarrow> None | Some old \<Rightarrow> Some \<lparr>split_var = 0, rounds = 0\<rparr>),
          [])"
  by (simp add: simulation_cec_def)

text \<open>Two networks of two inputs, with one and with two outputs.\<close>

theorem miter_failure_returns_false_witness:
  "\<not> 40 < num_pis toy_api \<lparr>toy_pis = 2, toy_nodes = 4, toy_pos = [False]\<rparr> \<and>
   miter toy_api \<lparr>toy_pis = 2, toy_nodes = 4, toy_pos = [False]\<rparr>
     \<lparr>toy_pis = 2, toy_nodes = 5, toy_pos = [False, True]\<rparr> = None \<and>
   simulation_cec toy_api \<lparr>toy_pis = 2, toy_nodes = 4, toy_pos = [False]\<rparr>
     \<lparr>toy_pis = 2, toy_nodes = 5, toy_pos = [False, True]\<rparr>
     (Some \<lparr>split_var = 9, rounds = 9\<rparr>)
     = Inr (Some False, Some \<lparr>split_var = 0, rounds = 0\<rparr>, [])"
proof -
  have h1: "\<not> 40 < num_pis toy_api \<lparr>toy_pis = 2, toy_nodes = 4, toy_pos = [False]\<rparr>"
    by (simp add: toy_api_def)
  have h2: "miter toy_api \<lparr>toy_pis = 2, toy_nodes = 4, toy_pos = [False]\<rparr>
     \<lparr>toy_pis = 2, toy_nodes = 5, toy_pos = [False, True]\<rparr> = None"
    by (simp add: toy_api_def toy_miter_def)
  from miter_failure_returns_false [OF h1 h2, of "Some \<lparr>split_var = 9, rounds = 9\<rparr>"] h1 h2
  show ?thesis by simp
qed

text \<open>The claim as stated fails there: with mismatched output counts and two inputs the
  entry point returns \<open>Some False\<close>, not \<open>None\<close>.\<close>

theorem miter_failure_not_indeterminate:
  "simulation_cec toy_api \<lparr>toy_pis = 2, toy_nodes = 4, toy_pos = [False]\<rparr>
     \<lparr>toy_pis = 2, toy_nodes = 5, toy_pos = [False, True]\<rparr> None
     = Inr (Some False, None, []) \<and>
   \<not> 40 < toy_pis \<lparr>toy_pis = 2, toy_nodes = 4, toy_pos = [False]\<rparr> \<and>
   toy_miter \<lparr>toy_pis = 2, toy_nodes = 4, toy_pos = [False]\<rparr>
     \<lparr>toy_pis = 2, toy_nodes = 5, toy_pos = [False, True]\<rparr> = None"
  by (simp add: simulation_cec_def toy_api_def toy_miter_def)

text \<open>The entry point returns the indeterminate result only through the guard on the
  input count.\<close>

lemma indeterminate_iff_cap_exceeded:
  "simulation_cec N ntk1 ntk2 pst = Inr (None, p, evs) \<longleftrightarrow>
   40 < num_pis N ntk1 \<and> p = pst \<and> evs = []"
  by (auto simp: simulation_cec_def Let_def split: if_splits sum.splits option.splits)

text \<open>
  Claim C7. For every pair of networks where the first has more than 40 primary inputs,
  the entry point returns the indeterminate result, whatever the networks, the miter
  construction and the simulation engine are, without a step of the driver and without
  a change to the stats location.
\<close>

theorem cap_exceeded_indeterminate:
  "40 < num_pis N ntk1 \<Longrightarrow> simulation_cec N ntk1 ntk2 pst = Inr (None, pst, [])"
  by (simp add: simulation_cec_def)

theorem cap_exceeded_indeterminate_witness:
  "40 < num_pis toy_api \<lparr>toy_pis = 41, toy_nodes = 42, toy_pos = [True]\<rparr> \<and>
   simulation_cec toy_api \<lparr>toy_pis = 41, toy_nodes = 42, toy_pos = [True]\<rparr>
     \<lparr>toy_pis = 41, toy_nodes = 42, toy_pos = [True]\<rparr> None = Inr (None, None, [])"
proof -
  have h: "40 < num_pis toy_api \<lparr>toy_pis = 41, toy_nodes = 42, toy_pos = [True]\<rparr>"
    by (simp add: toy_api_def)
  from cap_exceeded_indeterminate [OF h, of _ None] h show ?thesis by simp
qed

text \<open>
  The entry point never reads the prior content of the stats location. For any two
  locations \<open>pst1\<close> and \<open>pst2\<close> (either may be null): if the call with one runs into the
  undefined shift, so does the call with the other; if one returns, the other returns
  the same result after the same steps, and when the result is a boolean and both
  locations are supplied the same stats are stored. With the indeterminate result
  neither location is changed.
\<close>

lemma prior_stats_not_read:
  "(simulation_cec N ntk1 ntk2 pst1 = Inl e \<longrightarrow> simulation_cec N ntk1 ntk2 pst2 = Inl e) \<and>
   (simulation_cec N ntk1 ntk2 pst1 = Inr (res, p1, evs) \<longrightarrow>
      (\<exists>p2. simulation_cec N ntk1 ntk2 pst2 = Inr (res, p2, evs) \<and>
            (res = None \<longrightarrow> p1 = pst1 \<and> p2 = pst2) \<and>
            (res \<noteq> None \<and> pst1 \<noteq> None \<and> pst2 \<noteq> None \<longrightarrow> p2 = p1)))"
  by (auto simp: simulation_cec_def Let_def split: if_splits sum.splits option.splits prod.splits)

text \<open>
  Claim C9. When a stats location is supplied and the first network has more than 40
  primary inputs, the entry point returns without storing to the location, which keeps
  its prior content \<open>old\<close>; on the miter-failure path the location receives the
  default-initialised record with split width 0 and round count 0.
\<close>

theorem stats_location_frame:
  "(40 < num_pis N ntk1 \<longrightarrow>
      simulation_cec N ntk1 ntk2 (Some old) = Inr (None, Some old, [])) \<and>
   (\<not> 40 < num_pis N ntk1 \<and> miter N ntk1 ntk2 = None \<longrightarrow>
      simulation_cec N ntk1 ntk2 (Some old) =
        Inr (Some False, Some \<lparr>split_var = 0, rounds = 0\<rparr>, []))"
  by (simp add: simulation_cec_def)

theorem stats_location_frame_witness:
  "40 < num_pis toy_api \<lparr>toy_pis = 41, toy_nodes = 42, toy_pos = [True]\<rparr> \<and>
   simulation_cec toy_api \<lparr>toy_pis = 41, toy_nodes = 42, toy_pos = [True]\<rparr>
     \<lparr>toy_pis = 41, toy_nodes = 42, toy_pos = [False]\<rparr> (Some \<lparr>split_var = 9, rounds = 7\<rparr>)
     = Inr (None, Some \<lparr>split_var = 9, rounds = 7\<rparr>, []) \<and>
   \<not> 40 < num_pis toy_api \<lparr>toy_pis = 3, toy_nodes = 4, toy_pos = [True]\<rparr> \<and>
   miter toy_api \<lparr>toy_pis = 3, toy_nodes = 4, toy_pos = [True]\<rparr>
     \<lparr>toy_pis = 2, toy_nodes = 3, toy_pos = [True]\<rparr> = None \<and>
   simulation_cec toy_api \<lparr>toy_pis = 3, toy_nodes = 4, toy_pos = [True]\<rparr>
     \<lparr>toy_pis = 2, toy_nodes = 3, toy_pos = [True]\<rparr> (Some \<lparr>split_var = 9, rounds = 7\<rparr>)
     = Inr (Some False, Some \<lparr>split_var = 0, rounds = 0\<rparr>, [])"
  using stats_location_frame [of toy_api "\<lparr>toy_pis = 41, toy_nodes = 42, toy_pos = [True]\<rparr>"
      "\<lparr>toy_pis = 41, toy_nodes = 42, toy_pos = [False]\<rparr>" "\<lparr>split_var = 9, rounds = 7\<rparr>"]
    stats_location_frame [of toy_api "\<lparr>toy_pis = 3, toy_nodes = 4, toy_pos = [True]\<rparr>"
      "\<lparr>toy_pis = 2, toy_nodes = 3, toy_pos = [True]\<rparr>" "\<lparr>split_var = 9, rounds = 7\<rparr>"]
  by (simp add: toy_api_def toy_miter_def)


end
